theory Spec2Isabelle
  imports Main "HOL-Library.Word" "HOL-Library.Product_Lexorder"
begin

unbundle bit_operations_syntax

section \<open>Site change monitor: the change-detection core of main.py\<close>

text \<open>
  A Python \<open>str\<close> is a sequence of Unicode code points, and \<open>len\<close>, slicing and
  \<open>split\<close> count code points. A text is therefore a list of code points, each a
  natural number; the ASCII literals of the source are converted with \<open>lit\<close>.
\<close>

type_synonym str = "nat list"

definition lit :: "string \<Rightarrow> str" where
  "lit s = map of_char s"

subsection \<open>Python string primitives used by the source\<close>

text \<open>
  \<open>str.isspace\<close> for one code point: the code points that \<open>str.split()\<close> and
  \<open>str.strip()\<close> treat as whitespace (tab to carriage return, the four information
  separators, space, NEL, no-break space and the Unicode space separators).
\<close>

definition isspace :: "nat \<Rightarrow> bool" where
  "isspace c \<longleftrightarrow>
     (9 \<le> c \<and> c \<le> 13) \<or> (28 \<le> c \<and> c \<le> 32) \<or> c = 133 \<or> c = 160 \<or> c = 5760 \<or>
     (8192 \<le> c \<and> c \<le> 8202) \<or> c = 8232 \<or> c = 8233 \<or> c = 8239 \<or> c = 8287 \<or> c = 12288"

text \<open>
  \<open>s.split()\<close> with no argument: the maximal runs of non-whitespace, in order. The first
  argument is the token being read.
\<close>

fun split_ws :: "str \<Rightarrow> str \<Rightarrow> str list" where
  "split_ws tok [] = (if tok = [] then [] else [tok])"
| "split_ws tok (c # cs) =
     (if isspace c then (if tok = [] then split_ws [] cs else tok # split_ws [] cs)
      else split_ws (tok @ [c]) cs)"

definition py_split :: "str \<Rightarrow> str list" where
  "py_split s = split_ws [] s"

text \<open>\<open>sep.join(xs)\<close>.\<close>

fun py_join :: "str \<Rightarrow> str list \<Rightarrow> str" where
  "py_join sep [] = []"
| "py_join sep [x] = x"
| "py_join sep (x # y # ys) = x @ sep @ py_join sep (y # ys)"

text \<open>\<open>s.strip()\<close>: leading and trailing whitespace removed.\<close>

definition py_strip :: "str \<Rightarrow> str" where
  "py_strip s = rev (dropWhile isspace (rev (dropWhile isspace s)))"

subsection \<open>normalize\_text\<close>

text \<open>\<^verbatim>\<open>return " ".join(s.split()).strip()\<close>\<close>

definition normalize_text :: "str \<Rightarrow> str" where
  "normalize_text s = py_strip (py_join (lit '' '') (py_split s))"

subsection \<open>sha256\<close>

text \<open>
  \<^verbatim>\<open>return hashlib.sha256(s.encode("utf-8")).hexdigest()\<close>

  The exceptions the run can end with. \<open>FetchFailed\<close> is the caught fetch error
  (\<open>main\<close> returns 1); the others are uncaught Python exceptions.
\<close>

datatype error = FetchFailed | AttributeError | TypeError | UnicodeEncodeError | OSError

text \<open>
  \<open>str.encode("utf-8")\<close>: one to four bytes per code point. A surrogate
  (\<open>U+D800\<close> to \<open>U+DFFF\<close>) cannot be encoded and raises \<open>UnicodeEncodeError\<close>;
  a number above \<open>U+10FFFF\<close> is not a code point of any \<open>str\<close>.
\<close>

type_synonym byte = "8 word"

fun utf8_char :: "nat \<Rightarrow> error + byte list" where
  "utf8_char c =
     (if c < 0x80 then Inr [word_of_nat c]
      else if c < 0x800 then Inr [word_of_nat (0xC0 + c div 64), word_of_nat (0x80 + c mod 64)]
      else if 0xD800 \<le> c \<and> c \<le> 0xDFFF then Inl UnicodeEncodeError
      else if c < 0x10000 then
        Inr [word_of_nat (0xE0 + c div 4096), word_of_nat (0x80 + c div 64 mod 64), word_of_nat (0x80 + c mod 64)]
      else if c < 0x110000 then
        Inr [word_of_nat (0xF0 + c div 262144), word_of_nat (0x80 + c div 4096 mod 64),
             word_of_nat (0x80 + c div 64 mod 64), word_of_nat (0x80 + c mod 64)]
      else Inl UnicodeEncodeError)"

fun encode_utf8 :: "str \<Rightarrow> error + byte list" where
  "encode_utf8 [] = Inr []"
| "encode_utf8 (c # cs) =
     (case utf8_char c of
        Inl e \<Rightarrow> Inl e
      | Inr bs \<Rightarrow> (case encode_utf8 cs of Inl e \<Rightarrow> Inl e | Inr rest \<Rightarrow> Inr (bs @ rest)))"

text \<open>
  \<open>hashlib.sha256\<close> is SHA-256 as FIPS 180-4 defines it: the message is padded to a
  multiple of 64 bytes, read as big-endian 32-bit words and compressed block by block.
\<close>

definition K256 :: "32 word list" where
  "K256 = [
      0x428A2F98, 0x71374491, 0xB5C0FBCF, 0xE9B5DBA5, 0x3956C25B, 0x59F111F1,
      0x923F82A4, 0xAB1C5ED5, 0xD807AA98, 0x12835B01, 0x243185BE, 0x550C7DC3,
      0x72BE5D74, 0x80DEB1FE, 0x9BDC06A7, 0xC19BF174, 0xE49B69C1, 0xEFBE4786,
      0x0FC19DC6, 0x240CA1CC, 0x2DE92C6F, 0x4A7484AA, 0x5CB0A9DC, 0x76F988DA,
      0x983E5152, 0xA831C66D, 0xB00327C8, 0xBF597FC7, 0xC6E00BF3, 0xD5A79147,
      0x06CA6351, 0x14292967, 0x27B70A85, 0x2E1B2138, 0x4D2C6DFC, 0x53380D13,
      0x650A7354, 0x766A0ABB, 0x81C2C92E, 0x92722C85, 0xA2BFE8A1, 0xA81A664B,
      0xC24B8B70, 0xC76C51A3, 0xD192E819, 0xD6990624, 0xF40E3585, 0x106AA070,
      0x19A4C116, 0x1E376C08, 0x2748774C, 0x34B0BCB5, 0x391C0CB3, 0x4ED8AA4A,
      0x5B9CCA4F, 0x682E6FF3, 0x748F82EE, 0x78A5636F, 0x84C87814, 0x8CC70208,
      0x90BEFFFA, 0xA4506CEB, 0xBEF9A3F7, 0xC67178F2]"

definition H256 :: "32 word list" where
  "H256 = [
      0x6A09E667, 0xBB67AE85, 0x3C6EF372, 0xA54FF53A,
      0x510E527F, 0x9B05688C, 0x1F83D9AB, 0x5BE0CD19]"

definition rotr :: "nat \<Rightarrow> 32 word \<Rightarrow> 32 word" where
  "rotr n x = word_rotr n x"

definition ch :: "32 word \<Rightarrow> 32 word \<Rightarrow> 32 word \<Rightarrow> 32 word" where
  "ch x y z = (x AND y) XOR (NOT x AND z)"

definition maj :: "32 word \<Rightarrow> 32 word \<Rightarrow> 32 word \<Rightarrow> 32 word" where
  "maj x y z = (x AND y) XOR (x AND z) XOR (y AND z)"

definition bsig0 :: "32 word \<Rightarrow> 32 word" where
  "bsig0 x = rotr 2 x XOR rotr 13 x XOR rotr 22 x"

definition bsig1 :: "32 word \<Rightarrow> 32 word" where
  "bsig1 x = rotr 6 x XOR rotr 11 x XOR rotr 25 x"

definition ssig0 :: "32 word \<Rightarrow> 32 word" where
  "ssig0 x = rotr 7 x XOR rotr 18 x XOR drop_bit 3 x"

definition ssig1 :: "32 word \<Rightarrow> 32 word" where
  "ssig1 x = rotr 17 x XOR rotr 19 x XOR drop_bit 10 x"

definition sha_pad :: "byte list \<Rightarrow> byte list" where
  "sha_pad m =
     (let l = length m; z = (55 + 64 - l mod 64) mod 64
      in m @ [0x80] @ replicate z 0 @
         map (\<lambda>i. ucast (drop_bit (8 * (7 - i)) (word_of_nat (8 * l) :: 64 word))) [0..<8])"

fun be_words :: "byte list \<Rightarrow> 32 word list" where
  "be_words (b0 # b1 # b2 # b3 # bs) =
     (push_bit 24 (ucast b0) OR push_bit 16 (ucast b1) OR push_bit 8 (ucast b2) OR ucast b3) #
     be_words bs"
| "be_words _ = []"

fun chunks :: "nat \<Rightarrow> 'a list \<Rightarrow> 'a list list" where
  "chunks n [] = []"
| "chunks n (x # xs) = take n (x # xs) # chunks n (drop (n - 1) xs)"

fun schedule :: "nat \<Rightarrow> 32 word list \<Rightarrow> 32 word list" where
  "schedule 0 w = w"
| "schedule (Suc n) w =
     (let t = length w
      in schedule n (w @ [ssig1 (w ! (t - 2)) + w ! (t - 7) + ssig0 (w ! (t - 15)) + w ! (t - 16)]))"

type_synonym hstate = "32 word \<times> 32 word \<times> 32 word \<times> 32 word \<times> 32 word \<times> 32 word \<times> 32 word \<times> 32 word"

fun round256 :: "32 word \<times> 32 word \<Rightarrow> hstate \<Rightarrow> hstate" where
  "round256 (k, w) (a, b, c, d, e, f, g, h) =
     (let t1 = h + bsig1 e + ch e f g + k + w;
          t2 = bsig0 a + maj a b c
      in (t1 + t2, a, b, c, d + t1, e, f, g))"

fun compress :: "hstate \<Rightarrow> 32 word list \<Rightarrow> hstate" where
  "compress (a, b, c, d, e, f, g, h) block =
     (case fold round256 (zip K256 (schedule 48 block)) (a, b, c, d, e, f, g, h) of
        (a', b', c', d', e', f', g', h') \<Rightarrow>
          (a + a', b + b', c + c', d + d', e + e', f + f', g + g', h + h'))"

definition sha256_words :: "byte list \<Rightarrow> 32 word list" where
  "sha256_words m =
     (case fold (\<lambda>block st. compress st block) (chunks 16 (be_words (sha_pad m)))
        (H256 ! 0, H256 ! 1, H256 ! 2, H256 ! 3, H256 ! 4, H256 ! 5, H256 ! 6, H256 ! 7) of
        (a, b, c, d, e, f, g, h) \<Rightarrow> [a, b, c, d, e, f, g, h])"

text \<open>\<open>hexdigest()\<close>: eight lowercase hexadecimal digits per word.\<close>

definition hex_digit :: "32 word \<Rightarrow> nat" where
  "hex_digit d = (if d < 10 then 48 + unat d else 87 + unat d)"

definition hex_word :: "32 word \<Rightarrow> str" where
  "hex_word w = map (\<lambda>i. hex_digit (drop_bit (4 * (7 - i)) w AND 0xF)) [0..<8]"

definition hexdigest :: "32 word list \<Rightarrow> str" where
  "hexdigest ws = concat (map hex_word ws)"

definition sha256 :: "str \<Rightarrow> error + str" where
  "sha256 s = (case encode_utf8 s of Inl e \<Rightarrow> Inl e | Inr bs \<Rightarrow> Inr (hexdigest (sha256_words bs)))"

subsection \<open>difflib.unified\_diff\<close>

text \<open>
  \<open>build_diff\<close> calls \<open>difflib.unified_diff\<close> of the Python standard library, which is
  modelled here as \<open>difflib.py\<close> defines it: \<open>SequenceMatcher(None, a, b)\<close> with its
  default \<open>autojunk\<close>, \<open>get_grouped_opcodes(3)\<close> and the unified format with
  \<open>lineterm=""\<close> and no file dates.

  \<open>b2j\<close>: the indices of an element in \<open>b\<close>; when \<open>b\<close> has 200 elements or more, an
  element that occurs more than \<open>len(b) // 100 + 1\<close> times is popular and has no entry.
\<close>

type_synonym match = "nat \<times> nat \<times> nat"

definition b2j :: "'a list \<Rightarrow> 'a \<Rightarrow> nat list" where
  "b2j b elt =
     (let idxs = filter (\<lambda>i. b ! i = elt) [0..<length b]; n = length b
      in if n \<ge> 200 \<and> length idxs > n div 100 + 1 then [] else idxs)"

text \<open>
  \<open>find_longest_match\<close>. \<open>scan_row\<close> is its inner loop over the indices \<open>j\<close> of
  \<open>a[i]\<close> in \<open>b\<close> (\<open>continue\<close> below \<open>blo\<close>, \<open>break\<close> from \<open>bhi\<close> on) and \<open>scan_rows\<close> its
  outer loop over \<open>range(alo, ahi)\<close>; \<open>j2len\<close> is the dict of the previous row, where the
  key \<open>j - 1\<close> of \<open>j = 0\<close> is never present.
  \<^verbatim>\<open>
  k = newj2len[j] = j2lenget(j-1, 0) + 1
  if k > bestsize:
      besti, bestj, bestsize = i-k+1, j-k+1, k
  \<close>
\<close>

fun scan_row :: "nat \<Rightarrow> nat \<Rightarrow> nat \<Rightarrow> (int \<rightharpoonup> nat) \<Rightarrow> nat list \<Rightarrow>
    (int \<rightharpoonup> nat) \<times> match \<Rightarrow> (int \<rightharpoonup> nat) \<times> match" where
  "scan_row i blo bhi j2len [] st = st"
| "scan_row i blo bhi j2len (j # js) (newj2len, besti, bestj, bestsize) =
     (if j < blo then scan_row i blo bhi j2len js (newj2len, besti, bestj, bestsize)
      else if j \<ge> bhi then (newj2len, besti, bestj, bestsize)
      else
        let k = (case j2len (int j - 1) of None \<Rightarrow> 0 | Some v \<Rightarrow> v) + 1;
            newj2len' = newj2len(int j \<mapsto> k)
        in if k > bestsize then scan_row i blo bhi j2len js (newj2len', i + 1 - k, j + 1 - k, k)
           else scan_row i blo bhi j2len js (newj2len', besti, bestj, bestsize))"

fun scan_rows :: "'a list \<Rightarrow> 'a list \<Rightarrow> nat \<Rightarrow> nat \<Rightarrow> nat list \<Rightarrow>
    (int \<rightharpoonup> nat) \<times> match \<Rightarrow> match" where
  "scan_rows a b blo bhi [] (j2len, best) = best"
| "scan_rows a b blo bhi (i # rows) (j2len, best) =
     scan_rows a b blo bhi rows (scan_row i blo bhi j2len (b2j b (a ! i)) (Map.empty, best))"

text \<open>
  The two loops that extend the block by equal elements on both sides. With
  \<open>isjunk=None\<close> no element is junk, so the two further loops over junk elements never
  run.
\<close>

function extend_back :: "'a list \<Rightarrow> 'a list \<Rightarrow> nat \<Rightarrow> nat \<Rightarrow> match \<Rightarrow> match" where
  "extend_back a b alo blo (besti, bestj, bestsize) =
     (if besti > alo \<and> bestj > blo \<and> a ! (besti - 1) = b ! (bestj - 1)
      then extend_back a b alo blo (besti - 1, bestj - 1, bestsize + 1)
      else (besti, bestj, bestsize))"
  by pat_completeness auto

termination
  by (relation "measure (\<lambda>(a, b, alo, blo, besti, bestj, bestsize). besti)") auto

function extend_fwd :: "'a list \<Rightarrow> 'a list \<Rightarrow> nat \<Rightarrow> nat \<Rightarrow> match \<Rightarrow> match" where
  "extend_fwd a b ahi bhi (besti, bestj, bestsize) =
     (if besti + bestsize < ahi \<and> bestj + bestsize < bhi \<and>
         a ! (besti + bestsize) = b ! (bestj + bestsize)
      then extend_fwd a b ahi bhi (besti, bestj, bestsize + 1)
      else (besti, bestj, bestsize))"
  by pat_completeness auto

termination
  by (relation "measure (\<lambda>(a, b, ahi, bhi, besti, bestj, bestsize). ahi - (besti + bestsize))") auto

definition find_longest_match :: "'a list \<Rightarrow> 'a list \<Rightarrow> nat \<Rightarrow> nat \<Rightarrow> nat \<Rightarrow> nat \<Rightarrow> match" where
  "find_longest_match a b alo ahi blo bhi =
     extend_fwd a b ahi bhi
       (extend_back a b alo blo
         (scan_rows a b blo bhi [alo..<ahi] (Map.empty, alo, blo, 0)))"

text \<open>
  \<open>get_matching_blocks\<close>: the work list \<open>queue\<close> is a stack (\<open>queue.pop()\<close> takes
  the range appended last), here with its top at the head of the list. \<open>range_size\<close>
  measures a range for the termination of the loop.
\<close>

type_synonym range = "nat \<times> nat \<times> nat \<times> nat"

definition range_size :: "range \<Rightarrow> nat" where
  "range_size r = (case r of (alo, ahi, blo, bhi) \<Rightarrow> 2 * (ahi - alo) + 1)"

function match_loop :: "'a list \<Rightarrow> 'a list \<Rightarrow> range list \<Rightarrow> match list \<Rightarrow> match list" where
  "match_loop a b [] matching_blocks = matching_blocks"
| "match_loop a b ((alo, ahi, blo, bhi) # queue) matching_blocks =
     (case find_longest_match a b alo ahi blo bhi of (i, j, k) \<Rightarrow>
        if k \<noteq> 0 then
          match_loop a b
            ((if i + k < ahi \<and> j + k < bhi then [(i + k, ahi, j + k, bhi)] else []) @
             (if alo < i \<and> blo < j then [(alo, i, blo, j)] else []) @ queue)
            (matching_blocks @ [(i, j, k)])
        else match_loop a b queue matching_blocks)"
  by pat_completeness auto

text \<open>The sorted blocks, adjacent ones merged, and the sentinel \<open>(la, lb, 0)\<close>.\<close>

fun collapse :: "match \<Rightarrow> match list \<Rightarrow> match list \<Rightarrow> match list" where
  "collapse (i1, j1, k1) non_adjacent [] =
     (if k1 \<noteq> 0 then non_adjacent @ [(i1, j1, k1)] else non_adjacent)"
| "collapse (i1, j1, k1) non_adjacent ((i2, j2, k2) # blocks) =
     (if i1 + k1 = i2 \<and> j1 + k1 = j2 then collapse (i1, j1, k1 + k2) non_adjacent blocks
      else collapse (i2, j2, k2)
        (if k1 \<noteq> 0 then non_adjacent @ [(i1, j1, k1)] else non_adjacent) blocks)"

definition get_matching_blocks :: "'a list \<Rightarrow> 'a list \<Rightarrow> match list" where
  "get_matching_blocks a b =
     (let la = length a; lb = length b;
          matching_blocks = sort (match_loop a b [(0, la, 0, lb)] [])
      in collapse (0, 0, 0) [] matching_blocks @ [(la, lb, 0)])"

text \<open>\<open>get_opcodes\<close> and \<open>get_grouped_opcodes(n)\<close>.\<close>

datatype tag = Replace | Delete | Insert | Equal

type_synonym opcode = "tag \<times> nat \<times> nat \<times> nat \<times> nat"

fun opcodes_loop :: "nat \<Rightarrow> nat \<Rightarrow> match list \<Rightarrow> opcode list" where
  "opcodes_loop i j [] = []"
| "opcodes_loop i j ((ai, bj, sz) # blocks) =
     (if i < ai \<and> j < bj then [(Replace, i, ai, j, bj)]
      else if i < ai then [(Delete, i, ai, j, bj)]
      else if j < bj then [(Insert, i, ai, j, bj)]
      else []) @
     (if sz \<noteq> 0 then [(Equal, ai, ai + sz, bj, bj + sz)] else []) @
     opcodes_loop (ai + sz) (bj + sz) blocks"

definition get_opcodes :: "'a list \<Rightarrow> 'a list \<Rightarrow> opcode list" where
  "get_opcodes a b = opcodes_loop 0 0 (get_matching_blocks a b)"

fun group_loop :: "nat \<Rightarrow> opcode list \<Rightarrow> opcode list \<Rightarrow> opcode list list" where
  "group_loop n [] grp =
     (if grp \<noteq> [] \<and> \<not> (length grp = 1 \<and> fst (hd grp) = Equal) then [grp] else [])"
| "group_loop n ((tag, i1, i2, j1, j2) # codes) grp =
     (if tag = Equal \<and> i2 - i1 > n + n
      then (grp @ [(tag, i1, min i2 (i1 + n), j1, min j2 (j1 + n))]) #
           group_loop n codes [(tag, max i1 (i2 - n), i2, max j1 (j2 - n), j2)]
      else group_loop n codes (grp @ [(tag, i1, i2, j1, j2)]))"

definition fix_first :: "nat \<Rightarrow> opcode list \<Rightarrow> opcode list" where
  "fix_first n codes =
     (case codes of
        (Equal, i1, i2, j1, j2) # rest \<Rightarrow> (Equal, max i1 (i2 - n), i2, max j1 (j2 - n), j2) # rest
      | _ \<Rightarrow> codes)"

definition fix_last :: "nat \<Rightarrow> opcode list \<Rightarrow> opcode list" where
  "fix_last n codes =
     (if codes = [] then codes
      else case last codes of
        (Equal, i1, i2, j1, j2) \<Rightarrow> butlast codes @ [(Equal, i1, min i2 (i1 + n), j1, min j2 (j1 + n))]
      | _ \<Rightarrow> codes)"

definition get_grouped_opcodes :: "'a list \<Rightarrow> 'a list \<Rightarrow> nat \<Rightarrow> opcode list list" where
  "get_grouped_opcodes a b n =
     (let codes = get_opcodes a b;
          codes = (if codes = [] then [(Equal, 0, 1, 0, 1)] else codes)
      in group_loop n (fix_last n (fix_first n codes)) [])"

text \<open>\<open>'{}'.format(n)\<close> for a number that is never negative here.\<close>

fun digits :: "nat \<Rightarrow> str" where
  "digits n = (if n < 10 then [48 + n] else digits (n div 10) @ [48 + n mod 10])"

declare digits.simps [simp del]

definition format_range_unified :: "nat \<Rightarrow> nat \<Rightarrow> str" where
  "format_range_unified start stop =
     (let beginning = start + 1; len = stop - start
      in if len = 1 then digits beginning
         else digits (if len = 0 then beginning - 1 else beginning) @ lit '','' @ digits len)"

text \<open>
  \<open>xs[i1:i2]\<close> for \<open>0 \<le> i1 \<le> i2\<close>, and the lines that \<open>unified_diff\<close> yields for one group:
  the \<open>@@\<close> line and the lines of each opcode behind a space, \<open>-\<close> or \<open>+\<close>.
\<close>

definition py_slice :: "'a list \<Rightarrow> nat \<Rightarrow> nat \<Rightarrow> 'a list" where
  "py_slice xs i1 i2 = take (i2 - i1) (drop i1 xs)"

fun opcode_lines :: "str list \<Rightarrow> str list \<Rightarrow> opcode \<Rightarrow> str list" where
  "opcode_lines a b (tag, i1, i2, j1, j2) =
     (if tag = Equal then map (\<lambda>line. lit '' '' @ line) (py_slice a i1 i2)
      else
        (if tag = Replace \<or> tag = Delete then map (\<lambda>line. lit ''-'' @ line) (py_slice a i1 i2) else []) @
        (if tag = Replace \<or> tag = Insert then map (\<lambda>line. lit ''+'' @ line) (py_slice b j1 j2) else []))"

definition group_lines :: "str list \<Rightarrow> str list \<Rightarrow> opcode list \<Rightarrow> str list" where
  "group_lines a b grp =
     (case (hd grp, last grp) of ((_, f1, _, f3, _), (_, _, l2, _, l4)) \<Rightarrow>
        (lit ''@@ -'' @ format_range_unified f1 l2 @ lit '' +'' @ format_range_unified f3 l4 @ lit '' @@'') #
        concat (map (opcode_lines a b) grp))"

text \<open>
  The two header lines are yielded before the first group, so equal inputs yield nothing.
\<close>

definition unified_diff :: "str list \<Rightarrow> str list \<Rightarrow> str \<Rightarrow> str \<Rightarrow> str list" where
  "unified_diff a b fromfile tofile =
     (let groups = get_grouped_opcodes a b 3
      in if groups = [] then []
         else (lit ''--- '' @ fromfile) # (lit ''+++ '' @ tofile) # concat (map (group_lines a b) groups))"

subsection \<open>build\_diff\<close>

text \<open>
  \<open>str.splitlines()\<close>: the line boundaries of Python (\<open>\n\<close>, \<open>\r\<close>, \<open>\r\n\<close>,
  \<open>\v\<close>, \<open>\f\<close>, the separators \<open>1C\<close> to \<open>1E\<close>, NEL, \<open>U+2028\<close>, \<open>U+2029\<close>); the
  boundaries are dropped and a final boundary opens no empty line.
\<close>

definition is_linebreak :: "nat \<Rightarrow> bool" where
  "is_linebreak c \<longleftrightarrow> (10 \<le> c \<and> c \<le> 13) \<or> (28 \<le> c \<and> c \<le> 30) \<or> c = 133 \<or> c = 8232 \<or> c = 8233"

fun splitlines_from :: "str \<Rightarrow> str \<Rightarrow> str list" where
  "splitlines_from line [] = (if line = [] then [] else [line])"
| "splitlines_from line [c] = (if is_linebreak c then [line] else [line @ [c]])"
| "splitlines_from line (c # d # cs) =
     (if c = 13 \<and> d = 10 then line # splitlines_from [] cs
      else if is_linebreak c then line # splitlines_from [] (d # cs)
      else splitlines_from (line @ [c]) (d # cs))"

definition splitlines :: "str \<Rightarrow> str list" where
  "splitlines s = splitlines_from [] s"

text \<open>
  The loop of \<open>build_diff\<close> over the lines that \<open>unified_diff\<close> yields; \<open>i\<close> is the
  index \<open>enumerate\<close> counts and the result is \<open>out\<close>.
  \<^verbatim>\<open>
  for i, line in enumerate(diff):
      if i >= max_lines:
          out.append("... (diff truncated)")
          break
      out.append(line)
  \<close>
\<close>

fun diff_loop :: "nat \<Rightarrow> str list \<Rightarrow> int \<Rightarrow> str list" where
  "diff_loop i [] max_lines = []"
| "diff_loop i (line # diff) max_lines =
     (if int i \<ge> max_lines then [lit ''... (diff truncated)'']
      else line # diff_loop (Suc i) diff max_lines)"

text \<open>
  \<^verbatim>\<open>
  prev_lines = prev.splitlines()
  cur_lines = cur.splitlines()
  diff = difflib.unified_diff(prev_lines, cur_lines, fromfile="previous", tofile="current", lineterm="")
  ...
  return "\n".join(out)
  \<close>
\<close>

definition build_diff :: "str \<Rightarrow> str \<Rightarrow> int \<Rightarrow> str" where
  "build_diff prev cur max_lines =
     (let prev_lines = splitlines prev; cur_lines = splitlines cur;
          diff = unified_diff prev_lines cur_lines (lit ''previous'') (lit ''current'')
      in py_join (lit ''\<newline>'') (diff_loop 0 diff max_lines))"

subsection \<open>The state file\<close>

text \<open>
  What \<open>json.load\<close> can return. Of a number the source only ever uses whether it is zero.
  \<open>JObj kvs\<close> is a dict with the items \<open>kvs\<close>, looked up with \<open>map_of\<close>.
\<close>

datatype json = JNull | JBool bool | JNum int | JStr str | JArr "json list" | JObj "(str \<times> json) list"

text \<open>Python's truth value of a loaded value.\<close>

fun truthy :: "json \<Rightarrow> bool" where
  "truthy JNull = False"
| "truthy (JBool b) = b"
| "truthy (JNum n) = (n \<noteq> 0)"
| "truthy (JStr s) = (s \<noteq> [])"
| "truthy (JArr xs) = (xs \<noteq> [])"
| "truthy (JObj kvs) = (kvs \<noteq> [])"

text \<open>
  \<open>data/state.json\<close> as \<open>load_state\<close> sees it: it does not exist, or opening, decoding or
  parsing it raises, or \<open>json.load\<close> returns a value.
\<close>

datatype state_file = Missing | Unreadable | Holds json

text \<open>
  \<^verbatim>\<open>
  if not STATE_PATH.exists():
      return {}
  try:
      with STATE_PATH.open("r", encoding="utf-8") as f:
          return json.load(f) or {}
  except Exception:
      return {}
  \<close>
\<close>

fun load_state :: "state_file \<Rightarrow> json" where
  "load_state Missing = JObj []"
| "load_state Unreadable = JObj []"
| "load_state (Holds v) = (if truthy v then v else JObj [])"

text \<open>
  \<open>save_state\<close> creates the directory, opens the file with mode \<open>"w"\<close>, which empties it,
  and lets \<open>json.dump\<close> write the new record into it. Each of the three steps can raise
  \<open>OSError\<close>; \<open>save_fault\<close> names the step that does. Once the file is open its old
  contents are gone, and what a failed \<open>json.dump\<close> leaves is empty or a proper prefix of
  the record, which \<open>json.load\<close> rejects.
  \<^verbatim>\<open>
  DATA_DIR.mkdir(parents=True, exist_ok=True)
  with STATE_PATH.open("w", encoding="utf-8") as f:
      json.dump(state, f, ensure_ascii=False, indent=2)
  \<close>
\<close>

datatype save_fault = NoFault | MkdirFails | OpenFails | DumpFails

fun save_state :: "save_fault \<Rightarrow> json \<Rightarrow> state_file \<Rightarrow> (error + unit) \<times> state_file" where
  "save_state MkdirFails state file = (Inl OSError, file)"
| "save_state OpenFails state file = (Inl OSError, file)"
| "save_state DumpFails state file = (Inl OSError, Unreadable)"
| "save_state NoFault state file = (Inr (), Holds state)"

subsection \<open>main\<close>

text \<open>\<open>state.get(key, default)\<close>: only a dict has the method.\<close>

fun py_get :: "json \<Rightarrow> str \<Rightarrow> json \<Rightarrow> error + json" where
  "py_get (JObj kvs) key dflt = Inr (case map_of kvs key of None \<Rightarrow> dflt | Some v \<Rightarrow> v)"
| "py_get _ key dflt = Inl AttributeError"

text \<open>\<open>xs[:n]\<close>: a negative \<open>n\<close> counts from the end.\<close>

definition slice_to :: "'a list \<Rightarrow> int \<Rightarrow> 'a list" where
  "slice_to xs n = (if 0 \<le> n then take (nat n) xs else take (length xs - nat (- n)) xs)"

text \<open>
  \<open>prev_text[:5000]\<close> as \<open>build_diff\<close> receives it. The stored value is whatever the
  state file held: a number, a boolean or a dict is not sliceable (\<open>TypeError\<close>; for a
  dict Python 3.12 raises \<open>KeyError\<close> instead), and a list is sliced but has no
  \<open>splitlines\<close>.
\<close>

fun prev_slice :: "json \<Rightarrow> error + str" where
  "prev_slice (JStr s) = Inr (slice_to s 5000)"
| "prev_slice (JArr xs) = Inl AttributeError"
| "prev_slice _ = Inl TypeError"

text \<open>
  The page as the HTTP request and BeautifulSoup deliver it: an exception, or the title
  and the text of \<open>soup.get_text(" ", strip=True)\<close>.
  \<^verbatim>\<open>
  title = soup.title.get_text(strip=True) if soup.title else ""
  text = soup.get_text(" ", strip=True)
  text = normalize_text(text)
  return title, text
  \<close>
\<close>

datatype fetched = FetchException | Page str str

fun fetch_page_text :: "fetched \<Rightarrow> error + str \<times> str" where
  "fetch_page_text FetchException = Inl FetchFailed"
| "fetch_page_text (Page title text) = Inr (title, normalize_text text)"

text \<open>
  The configuration values that \<open>main\<close> reads for the comparison, \<open>max_text_chars\<close> after
  \<open>int(...)\<close> and absent when the key is, and what a run hands to the page it renders.
\<close>

record config =
  target_url :: str
  max_text_chars :: "int option"

record report =
  r_status :: str
  r_prev_hash :: json
  r_cur_hash :: str
  r_diff_text :: str
  r_snippet :: str

text \<open>\<^verbatim>\<open>max_chars = int(cfg.get("max_text_chars", 20000))\<close>\<close>

definition max_chars :: "config \<Rightarrow> int" where
  "max_chars cfg = (case max_text_chars cfg of None \<Rightarrow> 20000 | Some n \<Rightarrow> n)"

definition no_previous :: str where
  "no_previous = lit ''(no previous snapshot yet '' @ [8212] @ lit '' run once more to compare)''"

text \<open>
  \<open>main\<close> after the configuration is loaded, without \<open>--selftest\<close>. \<open>run_at\<close> is the
  clock's timestamp. The result is the report of a run that returns 0 (the values it
  passes to \<open>render_html\<close>), or the error the run ends with, and the state file the run
  leaves. Writing the assets and \<open>index.html\<close>, between the comparison and
  \<open>save_state\<close>, does not touch the state file and is left out.
\<close>

definition main :: "config \<Rightarrow> str \<Rightarrow> save_fault \<Rightarrow> fetched \<Rightarrow> state_file \<Rightarrow>
    (error + report) \<times> state_file" where
  "main cfg run_at fault page file =
     (let state = load_state file
      in case py_get state (lit ''last_text'') (JStr []) of
           Inl e \<Rightarrow> (Inl e, file)
         | Inr prev_text \<Rightarrow>
      (case py_get state (lit ''last_hash'') (JStr []) of
           Inl e \<Rightarrow> (Inl e, file)
         | Inr prev_hash \<Rightarrow>
      (case fetch_page_text page of
           Inl e \<Rightarrow> (Inl e, file)
         | Inr (page_title, text) \<Rightarrow>
      (let cur_text = slice_to text (max_chars cfg)
       in case sha256 cur_text of
            Inl e \<Rightarrow> (Inl e, file)
          | Inr cur_hash \<Rightarrow>
      (let changed = (prev_hash \<noteq> JStr [] \<and> JStr cur_hash \<noteq> prev_hash);
           status = (if changed then lit ''Change detected'' else lit ''No change detected'');
           snippet = slice_to cur_text 500
       in case (if truthy prev_text
                then (case prev_slice prev_text of
                        Inl e \<Rightarrow> Inl e
                      | Inr p \<Rightarrow> Inr (build_diff p (slice_to cur_text 5000) 220))
                else Inr no_previous) of
            Inl e \<Rightarrow> (Inl e, file)
          | Inr diff_text \<Rightarrow>
      (let state_out = JObj
             [(lit ''target_url'', JStr (target_url cfg)),
              (lit ''last_checked_utc'', JStr run_at),
              (lit ''last_hash'', JStr cur_hash),
              (lit ''last_title'', JStr page_title),
              (lit ''last_text'', JStr cur_text)]
       in case save_state fault state_out file of
            (Inl e, file') \<Rightarrow> (Inl e, file')
          | (Inr u, file') \<Rightarrow>
              (Inr \<lparr>r_status = status, r_prev_hash = prev_hash, r_cur_hash = cur_hash,
                    r_diff_text = diff_text, r_snippet = snippet\<rparr>, file')))))))"

subsection \<open>Predicates of the statements\<close>

text \<open>
  A token of \<open>split\<close>, a text that \<open>encode("utf-8")\<close> accepts, a hexadecimal digit, a text
  without a line boundary, and a line as \<open>unified_diff\<close> writes it (it starts with a
  space, \<open>+\<close>, \<open>-\<close> or \<open>@\<close>).
\<close>

definition is_token :: "str \<Rightarrow> bool" where
  "is_token t \<longleftrightarrow> t \<noteq> [] \<and> list_all (\<lambda>c. \<not> isspace c) t"

definition encodable :: "str \<Rightarrow> bool" where
  "encodable s = list_all (\<lambda>c. c < 0xD800 \<or> (0xDFFF < c \<and> c < 0x110000)) s"


definition one_line :: "str \<Rightarrow> bool" where
  "one_line s = list_all (\<lambda>c. \<not> is_linebreak c) s"

definition diff_line :: "str \<Rightarrow> bool" where
  "diff_line l \<longleftrightarrow> l \<noteq> [] \<and> (hd l = 32 \<or> hd l = 43 \<or> hd l = 45 \<or> hd l = 64)"

section \<open>Properties of the model\<close>

subsection \<open>The matching loop terminates\<close>

text \<open>
  The block that \<open>find_longest_match\<close> returns lies inside the range it was asked to
  search, so every range that \<open>get_matching_blocks\<close> puts on its work list is shorter than
  the one it took off.
\<close>

lemma scan_row_bounds:
  assumes "\<forall>j v. j2len j = Some v \<longrightarrow> v \<le> i - alo"
    and "alo \<le> i" and "i < ahi"
  shows "alo \<le> bi \<and> bi + bs \<le> ahi \<Longrightarrow>
    \<forall>j v. n0 j = Some v \<longrightarrow> v \<le> Suc i - alo \<Longrightarrow>
    scan_row i blo bhi j2len js (n0, bi, bj, bs) = (new, besti, bestj, bestsize) \<Longrightarrow>
    alo \<le> besti \<and> besti + bestsize \<le> ahi \<and> (\<forall>j v. new j = Some v \<longrightarrow> v \<le> Suc i - alo)"
proof (induction js arbitrary: n0 bi bj bs)
  case Nil
  then show ?case by auto
next
  case (Cons j js)
  let ?k = "(case j2len (int j - 1) of None \<Rightarrow> 0 | Some v \<Rightarrow> v) + 1"
  have k: "?k \<le> Suc i - alo" "0 < ?k"
    using assms(1,2) by (auto split: option.splits simp: Suc_diff_le)
  have upd: "\<forall>j' v. (n0(int j \<mapsto> ?k)) j' = Some v \<longrightarrow> v \<le> Suc i - alo"
    using k Cons.prems(2) by auto
  consider (skip) "j < blo" | (stop) "\<not> j < blo" "j \<ge> bhi"
    | (better) "\<not> j < blo" "\<not> j \<ge> bhi" "?k > bs"
    | (same) "\<not> j < blo" "\<not> j \<ge> bhi" "\<not> ?k > bs"
    by blast
  then show ?case
  proof cases
    case skip
    with Cons.prems(3) have "scan_row i blo bhi j2len js (n0, bi, bj, bs) = (new, besti, bestj, bestsize)"
      by simp
    from Cons.IH [OF Cons.prems(1,2) this] show ?thesis .
  next
    case stop
    with Cons.prems show ?thesis by auto
  next
    case better
    with Cons.prems(3)
    have run: "scan_row i blo bhi j2len js (n0(int j \<mapsto> ?k), i + 1 - ?k, j + 1 - ?k, ?k)
          = (new, besti, bestj, bestsize)"
      by (simp add: Let_def)
    have "alo \<le> i + 1 - ?k \<and> i + 1 - ?k + ?k \<le> ahi"
      using k assms(2,3) by auto
    from Cons.IH [OF this upd run] show ?thesis .
  next
    case same
    with Cons.prems(3)
    have run: "scan_row i blo bhi j2len js (n0(int j \<mapsto> ?k), bi, bj, bs)
          = (new, besti, bestj, bestsize)"
      by (simp add: Let_def)
    from Cons.IH [OF Cons.prems(1) upd run] show ?thesis .
  qed
qed

lemma scan_rows_bounds:
  "rows = [i..<ahi] \<Longrightarrow> alo \<le> i \<Longrightarrow>
    \<forall>j v. j2len j = Some v \<longrightarrow> v \<le> i - alo \<Longrightarrow>
    alo \<le> bi \<and> bi + bs \<le> ahi \<Longrightarrow>
    scan_rows a b blo bhi rows (j2len, bi, bj, bs) = (besti, bestj, bestsize) \<Longrightarrow>
    alo \<le> besti \<and> besti + bestsize \<le> ahi"
proof (induction rows arbitrary: i j2len bi bj bs)
  case Nil
  then show ?case by auto
next
  case (Cons r rows)
  from Cons.prems(1) [symmetric] have lt: "i < ahi" and r: "r = i" and rows: "rows = [Suc i..<ahi]"
    by (auto simp: upt_eq_Cons_conv)
  obtain new bi' bj' bs' where row:
    "scan_row i blo bhi j2len (b2j b (a ! i)) (Map.empty, bi, bj, bs) = (new, bi', bj', bs')"
    by (metis prod_cases4)
  have "alo \<le> bi' \<and> bi' + bs' \<le> ahi \<and> (\<forall>j v. new j = Some v \<longrightarrow> v \<le> Suc i - alo)"
    by (rule scan_row_bounds [OF Cons.prems(3) Cons.prems(2) lt Cons.prems(4) _ row]) simp
  then have b: "alo \<le> bi' \<and> bi' + bs' \<le> ahi" and n: "\<forall>j v. new j = Some v \<longrightarrow> v \<le> Suc i - alo"
    by auto
  from Cons.prems(5) r row
  have run: "scan_rows a b blo bhi rows (new, bi', bj', bs') = (besti, bestj, bestsize)"
    by simp
  have "alo \<le> Suc i" using Cons.prems(2) by simp
  from Cons.IH [OF rows this n b run] show ?case .
qed

lemma extend_back_bounds:
  "extend_back a b alo blo (bi, bj, bs) = (besti, bestj, bestsize) \<Longrightarrow>
   alo \<le> bi \<and> bi + bs \<le> ahi \<Longrightarrow> alo \<le> besti \<and> besti + bestsize \<le> ahi"
proof (induction a b alo blo "(bi, bj, bs)" arbitrary: bi bj bs rule: extend_back.induct)
  case (1 a b alo blo bi bj bs)
  show ?case
  proof (cases "bi > alo \<and> bj > blo \<and> a ! (bi - 1) = b ! (bj - 1)")
    case True
    with "1.prems"(1) have run: "extend_back a b alo blo (bi - 1, bj - 1, bs + 1) = (besti, bestj, bestsize)"
      by simp
    have "alo \<le> bi - 1 \<and> bi - 1 + (bs + 1) \<le> ahi"
      using True "1.prems"(2) by auto
    from "1.hyps" [OF True run this] show ?thesis .
  next
    case False
    with "1.prems" show ?thesis by auto
  qed
qed

lemma extend_fwd_bounds:
  "extend_fwd a b ahi bhi (bi, bj, bs) = (besti, bestj, bestsize) \<Longrightarrow>
   alo \<le> bi \<and> bi + bs \<le> ahi \<Longrightarrow> alo \<le> besti \<and> besti + bestsize \<le> ahi"
proof (induction a b ahi bhi "(bi, bj, bs)" arbitrary: bi bj bs rule: extend_fwd.induct)
  case (1 a b ahi bhi bi bj bs)
  show ?case
  proof (cases "bi + bs < ahi \<and> bj + bs < bhi \<and> a ! (bi + bs) = b ! (bj + bs)")
    case True
    with "1.prems"(1) have "extend_fwd a b ahi bhi (bi, bj, bs + 1) = (besti, bestj, bestsize)"
      by simp
    from "1.hyps" [OF True this] True "1.prems"(2) show ?thesis by simp
  next
    case False
    with "1.prems" show ?thesis by auto
  qed
qed

lemma find_longest_match_bounds:
  assumes "find_longest_match a b alo ahi blo bhi = (i, j, k)" and "k \<noteq> 0"
  shows "alo \<le> i \<and> i + k \<le> ahi"
proof (cases "alo \<le> ahi")
  case True
  obtain i1 j1 k1 where s: "scan_rows a b blo bhi [alo..<ahi] (Map.empty, alo, blo, 0) = (i1, j1, k1)"
    by (metis prod_cases3)
  obtain i2 j2 k2 where e: "extend_back a b alo blo (i1, j1, k1) = (i2, j2, k2)"
    by (metis prod_cases3)
  from assms(1) s e have f: "extend_fwd a b ahi bhi (i2, j2, k2) = (i, j, k)"
    by (simp add: find_longest_match_def)
  from scan_rows_bounds [OF refl _ _ _ s, of alo] True have "alo \<le> i1 \<and> i1 + k1 \<le> ahi"
    by simp
  from extend_back_bounds [OF e this] have "alo \<le> i2 \<and> i2 + k2 \<le> ahi" .
  from extend_fwd_bounds [OF f this] show ?thesis .
next
  case False
  then have "find_longest_match a b alo ahi blo bhi = (alo, blo, 0)"
    by (simp add: find_longest_match_def)
  with assms show ?thesis by simp
qed

termination match_loop
  apply (relation "measure (\<lambda>(a, b, queue, blocks). sum_list (map range_size queue))")
    apply simp
   apply (auto simp: range_size_def dest: find_longest_match_bounds [OF sym])
  done

subsection \<open>Whitespace splitting and joining\<close>

lemma lit_space: "lit '' '' = [32]"
  by (simp add: lit_def)

lemma isspace_32: "isspace 32"
  by (simp add: isspace_def)

lemma split_ws_tokens:
  "list_all (\<lambda>c. \<not> isspace c) tok \<Longrightarrow> list_all is_token (split_ws tok s)"
  by (induction s arbitrary: tok) (auto simp: is_token_def)

lemma py_split_tokens: "list_all is_token (py_split s)"
  by (simp add: py_split_def split_ws_tokens)

lemma split_ws_append:
  "list_all (\<lambda>c. \<not> isspace c) w \<Longrightarrow> split_ws tok (w @ rest) = split_ws (tok @ w) rest"
  by (induction w arbitrary: tok) auto

lemma split_join_tokens:
  "list_all is_token ws \<Longrightarrow> split_ws [] (py_join [32] ws) = ws"
proof (induction ws)
  case Nil
  show ?case by simp
next
  case (Cons x xs)
  then have x: "list_all (\<lambda>c. \<not> isspace c) x" "x \<noteq> []"
    by (simp_all add: is_token_def)
  show ?case
  proof (cases xs)
    case Nil
    with x show ?thesis
      using split_ws_append [of x "[]" "[]"] by simp
  next
    case (Cons y ys)
    from Cons.IH Cons.prems have rest: "split_ws [] (py_join [32] xs) = xs"
      by simp
    have "split_ws [] (x @ 32 # py_join [32] xs) = split_ws x (32 # py_join [32] xs)"
      using split_ws_append [OF x(1), of "[]"] by simp
    also have "\<dots> = x # split_ws [] (py_join [32] xs)"
      using x(2) by (simp add: isspace_32)
    finally show ?thesis
      using rest Cons by simp
  qed
qed

lemma join_tokens_ends:
  "list_all is_token ws \<Longrightarrow> ws \<noteq> [] \<Longrightarrow>
     \<not> isspace (hd (py_join [32] ws)) \<and> \<not> isspace (last (py_join [32] ws)) \<and> py_join [32] ws \<noteq> []"
proof (induction ws)
  case Nil
  then show ?case by simp
next
  case (Cons x xs)
  then have x: "x \<noteq> []" "list_all (\<lambda>c. \<not> isspace c) x"
    by (simp_all add: is_token_def)
  then have hd_x: "\<not> isspace (hd x)"
    by (cases x) auto
  from x have last_x: "\<not> isspace (last x)"
    by (cases x rule: rev_cases) auto
  show ?case
  proof (cases xs)
    case Nil
    with x hd_x last_x show ?thesis by simp
  next
    case (Cons y ys)
    with Cons.IH Cons.prems
    have ih: "\<not> isspace (last (py_join [32] xs))" "py_join [32] xs \<noteq> []"
      by simp_all
    with x hd_x Cons show ?thesis by simp
  qed
qed

lemma strip_no_ends:
  assumes "s = [] \<or> (\<not> isspace (hd s) \<and> \<not> isspace (last s))"
  shows "py_strip s = s"
proof (cases "s = []")
  case True
  then show ?thesis by (simp add: py_strip_def)
next
  case False
  with assms have h: "\<not> isspace (hd s)" and l: "\<not> isspace (last s)"
    by simp_all
  from False h have front: "dropWhile isspace s = s"
    by (cases s) auto
  from False l have "dropWhile isspace (rev s) = rev s"
    by (cases s rule: rev_cases) auto
  with front show ?thesis
    by (simp add: py_strip_def)
qed

lemma strip_join_tokens:
  "list_all is_token ws \<Longrightarrow> py_strip (py_join [32] ws) = py_join [32] ws"
proof (cases "ws = []")
  case True
  then show ?thesis by (simp add: py_strip_def)
next
  case False
  assume "list_all is_token ws"
  from join_tokens_ends [OF this False] show ?thesis
    by (intro strip_no_ends) simp
qed

lemma normalize_text_join: "normalize_text s = py_join [32] (py_split s)"
  by (simp add: normalize_text_def lit_space strip_join_tokens py_split_tokens)

lemma py_split_normalize: "py_split (normalize_text s) = py_split s"
  by (simp add: normalize_text_join py_split_def [of "py_join [32] (py_split s)"]
      split_join_tokens py_split_tokens)





subsection \<open>The fingerprint\<close>


lemma encode_utf8_Inr_encodable: "encode_utf8 s = Inr bs \<Longrightarrow> encodable s"
  by (induction s arbitrary: bs) (auto simp: encodable_def split: if_splits sum.splits)











subsection \<open>Texts of one line\<close>

lemma is_linebreak_isspace: "is_linebreak c \<Longrightarrow> isspace c"
  by (auto simp: is_linebreak_def isspace_def)

lemma one_line_token: "is_token t \<Longrightarrow> one_line t"
  by (auto simp: is_token_def one_line_def list_all_iff dest: is_linebreak_isspace)

lemma one_line_join: "list_all is_token ws \<Longrightarrow> one_line (py_join [32] ws)"
proof (induction ws)
  case Nil
  show ?case by (simp add: one_line_def)
next
  case (Cons x xs)
  then have x: "one_line x" and xs: "one_line (py_join [32] xs)"
    by (simp_all add: one_line_token)
  show ?case
  proof (cases xs)
    case Nil
    with x show ?thesis by simp
  next
    case (Cons y ys)
    with x xs show ?thesis
      by (simp add: one_line_def is_linebreak_def)
  qed
qed

lemma one_line_normalize_text: "one_line (normalize_text s)"
  by (simp add: normalize_text_join one_line_join py_split_tokens)

lemma one_line_slice_to: "one_line s \<Longrightarrow> one_line (slice_to s n)"
  by (auto simp: one_line_def slice_to_def list_all_iff dest: in_set_takeD)

lemma is_linebreak_cr: "is_linebreak 13"
  by (simp add: is_linebreak_def)

lemma splitlines_from_one_line:
  "one_line s \<Longrightarrow> splitlines_from line s = (if line @ s = [] then [] else [line @ s])"
  by (induction line s rule: splitlines_from.induct) (auto simp: one_line_def is_linebreak_cr)

lemma splitlines_one_line: "one_line s \<Longrightarrow> splitlines s = (if s = [] then [] else [s])"
  by (simp add: splitlines_def splitlines_from_one_line)

lemma unified_diff_empty: "unified_diff [] [] fromfile tofile = []"
  by (simp add: unified_diff_def get_grouped_opcodes_def get_opcodes_def get_matching_blocks_def
      find_longest_match_def fix_first_def fix_last_def)

lemma unified_diff_same_line: "unified_diff [l] [l] fromfile tofile = []"
  by (simp add: unified_diff_def get_grouped_opcodes_def get_opcodes_def get_matching_blocks_def
      find_longest_match_def fix_first_def fix_last_def b2j_def)

lemma build_diff_same: "one_line s \<Longrightarrow> build_diff s s max_lines = []"
  by (simp add: build_diff_def splitlines_one_line unified_diff_empty unified_diff_same_line)

subsection \<open>The loop of build\_diff\<close>

lemma diff_loop_keep: "int (i + length d) \<le> n \<Longrightarrow> diff_loop i d n = d"
  by (induction d arbitrary: i) auto

lemma diff_loop_cut:
  "int i \<le> n \<Longrightarrow> n < int (i + length d) \<Longrightarrow>
     diff_loop i d n = take (nat n - i) d @ [lit ''... (diff truncated)'']"
proof (induction d arbitrary: i)
  case Nil
  then show ?case by simp
next
  case (Cons x xs)
  show ?case
  proof (cases "n \<le> int i")
    case True
    with Cons.prems have "nat n - i = 0" by simp
    with True show ?thesis by simp
  next
    case False
    then have "int (Suc i) \<le> n" by simp
    moreover from Cons.prems have "n < int (Suc i + length xs)" by simp
    ultimately have "diff_loop (Suc i) xs n = take (nat n - Suc i) xs @ [lit ''... (diff truncated)'']"
      by (rule Cons.IH)
    moreover from False have "nat n - i = Suc (nat n - Suc i)" by linarith
    ultimately show ?thesis using False by simp
  qed
qed

subsection \<open>The lines of a unified diff\<close>

lemma diff_line_opcode_lines: "l \<in> set (opcode_lines a b c) \<Longrightarrow> diff_line l"
  by (cases c) (auto simp: diff_line_def lit_def split: if_splits)

lemma diff_line_group_lines: "l \<in> set (group_lines a b g) \<Longrightarrow> diff_line l"
  by (auto simp: group_lines_def diff_line_def lit_def split: prod.splits
      dest: diff_line_opcode_lines)

lemma diff_line_unified_diff: "l \<in> set (unified_diff a b fromfile tofile) \<Longrightarrow> diff_line l"
  by (auto simp: unified_diff_def Let_def diff_line_def lit_def split: if_splits
      dest: diff_line_group_lines)

lemma marker_no_diff_line: "\<not> diff_line (lit ''... (diff truncated)'')"
  by (simp add: diff_line_def lit_def)

subsection \<open>Counting the lines of the returned text\<close>

lemma one_line_splitlines_from:
  "l \<in> set (splitlines_from line s) \<Longrightarrow> one_line line \<Longrightarrow> one_line l"
  by (induction line s rule: splitlines_from.induct)
    (auto simp: one_line_def split: if_splits)

lemma one_line_splitlines: "l \<in> set (splitlines s) \<Longrightarrow> one_line l"
  using one_line_splitlines_from [of l "[]" s] by (simp add: splitlines_def one_line_def)

lemma one_line_digits: "one_line (digits n)"
proof (induction n rule: digits.induct)
  case (1 n)
  show ?case
  proof (cases "n < 10")
    case True
    then show ?thesis
      by (subst digits.simps) (simp add: one_line_def is_linebreak_def)
  next
    case False
    with 1 have "one_line (digits (n div 10))" by simp
    moreover have "\<not> is_linebreak (48 + n mod 10)"
    proof -
      have "n mod 10 < 10" by simp
      then have "48 + n mod 10 < 58" by linarith
      then show ?thesis by (auto simp: is_linebreak_def)
    qed
    ultimately show ?thesis
      using False by (subst digits.simps) (simp add: one_line_def)
  qed
qed

lemma one_line_append: "one_line (xs @ ys) \<longleftrightarrow> one_line xs \<and> one_line ys"
  by (simp add: one_line_def)

lemma one_line_format_range: "one_line (format_range_unified start stop)"
  by (simp add: format_range_unified_def Let_def one_line_append one_line_digits)
    (simp add: one_line_def lit_def is_linebreak_def)

lemma one_line_opcode_lines:
  "l \<in> set (opcode_lines a b c) \<Longrightarrow> list_all one_line a \<Longrightarrow> list_all one_line b \<Longrightarrow> one_line l"
  by (cases c)
    (auto simp: py_slice_def one_line_append list_all_iff split: if_splits
      dest!: in_set_takeD in_set_dropD, simp_all add: one_line_def lit_def is_linebreak_def)

lemma one_line_group_lines:
  "l \<in> set (group_lines a b g) \<Longrightarrow> list_all one_line a \<Longrightarrow> list_all one_line b \<Longrightarrow> one_line l"
  by (auto simp: group_lines_def one_line_append one_line_format_range split: prod.splits
      dest: one_line_opcode_lines, simp_all add: one_line_def lit_def is_linebreak_def)

lemma one_line_unified_diff:
  "l \<in> set (unified_diff a b fromfile tofile) \<Longrightarrow> list_all one_line a \<Longrightarrow> list_all one_line b \<Longrightarrow>
     one_line fromfile \<Longrightarrow> one_line tofile \<Longrightarrow> one_line l"
  by (auto simp: unified_diff_def Let_def one_line_append split: if_splits
      dest: one_line_group_lines, simp_all add: one_line_def lit_def is_linebreak_def)

lemma splitlines_from_line_break:
  "one_line l \<Longrightarrow> splitlines_from line (l @ 10 # rest) = (line @ l) # splitlines_from [] rest"
proof (induction l arbitrary: line)
  case Nil
  show ?case
    by (cases rest) (simp_all add: is_linebreak_def)
next
  case (Cons c l)
  then have c: "\<not> is_linebreak c" and l: "one_line l"
    by (simp_all add: one_line_def)
  from c have c13: "c \<noteq> 13"
    using is_linebreak_cr by auto
  obtain d cs where dcs: "l @ 10 # rest = d # cs"
    by (cases l) auto
  have "splitlines_from line (c # l @ 10 # rest) = splitlines_from (line @ [c]) (l @ 10 # rest)"
    unfolding dcs using c c13 by simp
  with Cons.IH [OF l, of "line @ [c]"] show ?case by simp
qed

lemma splitlines_join:
  "list_all (\<lambda>l. l \<noteq> [] \<and> one_line l) ls \<Longrightarrow> splitlines (py_join [10] ls) = ls"
proof (induction ls)
  case Nil
  show ?case by (simp add: splitlines_def)
next
  case (Cons x xs)
  then have x: "x \<noteq> []" "one_line x" by simp_all
  show ?case
  proof (cases xs)
    case Nil
    with x show ?thesis by (simp add: splitlines_one_line)
  next
    case (Cons y ys)
    from Cons.IH Cons.prems have "splitlines_from [] (py_join [10] xs) = xs"
      by (simp add: splitlines_def)
    with splitlines_from_line_break [OF x(2), of "[]" "py_join [10] xs"] Cons
    show ?thesis by (simp add: splitlines_def)
  qed
qed

lemma lit_newline: "lit ''\<newline>'' = [10]"
  by (simp add: lit_def)

lemma build_diff_lines_ok:
  "l \<in> set (unified_diff (splitlines prev) (splitlines cur) (lit ''previous'') (lit ''current'')) \<Longrightarrow>
     l \<noteq> [] \<and> one_line l"
proof -
  assume l: "l \<in> set (unified_diff (splitlines prev) (splitlines cur) (lit ''previous'') (lit ''current''))"
  have "one_line (lit ''previous'')" "one_line (lit ''current'')"
    by (simp_all add: one_line_def lit_def is_linebreak_def)
  moreover have "list_all one_line (splitlines prev)" "list_all one_line (splitlines cur)"
    by (simp_all add: list_all_iff one_line_splitlines)
  ultimately have "one_line l"
    using one_line_unified_diff [OF l] by blast
  moreover from diff_line_unified_diff [OF l] have "l \<noteq> []"
    by (simp add: diff_line_def)
  ultimately show ?thesis by simp
qed

subsection \<open>Runs of main\<close>

lemma main_success:
  assumes "main cfg run_at fault page file = (Inr r, file')"
  obtains kvs title raw where
    "load_state file = JObj kvs" and "page = Page title raw" and "fault = NoFault"
    and "sha256 (slice_to (normalize_text raw) (max_chars cfg)) = Inr (r_cur_hash r)"
    and "r_prev_hash r = (case map_of kvs (lit ''last_hash'') of None \<Rightarrow> JStr [] | Some v \<Rightarrow> v)"
    and "r_status r =
      (if r_prev_hash r \<noteq> JStr [] \<and> JStr (r_cur_hash r) \<noteq> r_prev_hash r
       then lit ''Change detected'' else lit ''No change detected'')"
    and "r_snippet r = slice_to (slice_to (normalize_text raw) (max_chars cfg)) 500"
    and "file' = Holds (JObj
             [(lit ''target_url'', JStr (target_url cfg)),
              (lit ''last_checked_utc'', JStr run_at),
              (lit ''last_hash'', JStr (r_cur_hash r)),
              (lit ''last_title'', JStr title),
              (lit ''last_text'', JStr (slice_to (normalize_text raw) (max_chars cfg)))])"
    and "case map_of kvs (lit ''last_text'') of
           None \<Rightarrow> r_diff_text r = no_previous
         | Some v \<Rightarrow>
             if truthy v
             then \<exists>p. v = JStr p \<and> r_diff_text r =
               build_diff (slice_to p 5000)
                 (slice_to (slice_to (normalize_text raw) (max_chars cfg)) 5000) 220
             else r_diff_text r = no_previous"
  using assms
  by (auto simp: main_def Let_def split: sum.splits prod.splits if_splits option.splits
      elim!: py_get.elims fetch_page_text.elims save_state.elims prev_slice.elims)

lemma main_runs:
  assumes "load_state file = JObj kvs"
    and "sha256 (slice_to (normalize_text raw) (max_chars cfg)) = Inr h"
    and "case map_of kvs (lit ''last_text'') of None \<Rightarrow> True | Some v \<Rightarrow> truthy v \<longrightarrow> (\<exists>p. v = JStr p)"
  shows "\<exists>r. main cfg run_at NoFault (Page title raw) file =
      (Inr r, Holds (JObj
             [(lit ''target_url'', JStr (target_url cfg)),
              (lit ''last_checked_utc'', JStr run_at),
              (lit ''last_hash'', JStr h),
              (lit ''last_title'', JStr title),
              (lit ''last_text'', JStr (slice_to (normalize_text raw) (max_chars cfg)))]))"
  using assms
  by (auto simp: main_def Let_def split: sum.splits prod.splits if_splits option.splits)


lemma no_previous_not_empty: "no_previous \<noteq> []"
  by (simp add: no_previous_def)

lemma status_texts_differ: "lit ''Change detected'' \<noteq> lit ''No change detected''"
  by (simp add: lit_def)

text \<open>
  A state file that holds JSON of another shape than a dict is not covered by
  \<open>load_state\<close>: the value is returned as it is and \<open>state.get\<close> raises.
\<close>

lemma non_dict_state_raises:
  "load_state (Holds (JArr [JNum 1])) = JArr [JNum 1] \<and>
   main cfg run_at fault page (Holds (JArr [JNum 1])) = (Inl AttributeError, Holds (JArr [JNum 1]))"
  by (simp add: main_def)

subsection \<open>Concrete runs\<close>

lemma sha256_abc:
  "sha256 (lit ''abc'') = Inr (lit ''ba7816bf8f01cfea414140de5dae2223b00361a396177a9cb410ff61f20015ad'')"
  unfolding lit_def by code_simp

lemma normalize_text_abc: "normalize_text (lit ''abc'') = lit ''abc''"
  by (simp add: normalize_text_def py_split_def py_strip_def lit_def isspace_def)

lemma first_run_abc:
  "main \<lparr>target_url = lit ''u'', max_text_chars = None\<rparr> (lit ''t'') NoFault (Page [] (lit ''abc'')) Missing =
     (Inr \<lparr>r_status = lit ''No change detected'', r_prev_hash = JStr [],
           r_cur_hash = lit ''ba7816bf8f01cfea414140de5dae2223b00361a396177a9cb410ff61f20015ad'',
           r_diff_text = no_previous, r_snippet = lit ''abc''\<rparr>,
      Holds (JObj
        [(lit ''target_url'', JStr (lit ''u'')),
         (lit ''last_checked_utc'', JStr (lit ''t'')),
         (lit ''last_hash'', JStr (lit ''ba7816bf8f01cfea414140de5dae2223b00361a396177a9cb410ff61f20015ad'')),
         (lit ''last_title'', JStr []),
         (lit ''last_text'', JStr (lit ''abc''))]))"
proof -
  have cut: "slice_to (lit ''abc'') 20000 = lit ''abc''" "slice_to (lit ''abc'') 500 = lit ''abc''"
    by (simp_all add: slice_to_def lit_def)
  show ?thesis
    by (simp add: main_def max_chars_def normalize_text_abc cut sha256_abc Let_def)
qed

lemma changed_run_abc:
  "main \<lparr>target_url = lit ''u'', max_text_chars = None\<rparr> (lit ''t'') NoFault (Page [] (lit ''abc''))
     (Holds (JObj [(lit ''last_hash'', JStr (lit ''x'')), (lit ''last_text'', JStr (lit ''old''))])) =
     (Inr \<lparr>r_status = lit ''Change detected'', r_prev_hash = JStr (lit ''x''),
           r_cur_hash = lit ''ba7816bf8f01cfea414140de5dae2223b00361a396177a9cb410ff61f20015ad'',
           r_diff_text = build_diff (lit ''old'') (lit ''abc'') 220, r_snippet = lit ''abc''\<rparr>,
      Holds (JObj
        [(lit ''target_url'', JStr (lit ''u'')),
         (lit ''last_checked_utc'', JStr (lit ''t'')),
         (lit ''last_hash'', JStr (lit ''ba7816bf8f01cfea414140de5dae2223b00361a396177a9cb410ff61f20015ad'')),
         (lit ''last_title'', JStr []),
         (lit ''last_text'', JStr (lit ''abc''))]))"
proof -
  have cut: "slice_to (lit ''abc'') 20000 = lit ''abc''" "slice_to (lit ''abc'') 500 = lit ''abc''"
    "slice_to (lit ''abc'') 5000 = lit ''abc''" "slice_to (lit ''old'') 5000 = lit ''old''"
    by (simp_all add: slice_to_def lit_def)
  have facts: "lit ''old'' \<noteq> []" "lit ''last_text'' \<noteq> lit ''last_hash''" "lit ''x'' \<noteq> []"
    "lit ''ba7816bf8f01cfea414140de5dae2223b00361a396177a9cb410ff61f20015ad'' \<noteq> lit ''x''"
    by (simp_all add: lit_def)
  show ?thesis
    using facts by (simp add: main_def max_chars_def normalize_text_abc cut sha256_abc Let_def)
qed



lemma unified_diff_a_b:
  "unified_diff [lit ''a''] [lit ''b''] (lit ''previous'') (lit ''current'') =
     [lit ''--- previous'', lit ''+++ current'', lit ''@@ -1 +1 @@'', lit ''-a'', lit ''+b'']"
  unfolding lit_def by code_simp

lemma build_diff_a_b_2:
  "build_diff (lit ''a'') (lit ''b'') 2 =
     py_join [10] [lit ''--- previous'', lit ''+++ current'', lit ''... (diff truncated)'']"
proof -
  have "splitlines (lit ''a'') = [lit ''a'']" "splitlines (lit ''b'') = [lit ''b'']"
    by (simp_all add: splitlines_def lit_def is_linebreak_def)
  then show ?thesis
    by (simp add: build_diff_def unified_diff_a_b lit_newline)
qed

section \<open>The claims\<close>

text \<open>
  C1, as the code has it: a run has two statuses. It reports a change exactly when a
  previous digest is stored, is not the empty string and differs from the current
  digest; every other run, the first one included, reports no change. The diff text is a
  fixed sentence when no previous text is stored, and otherwise the diff of the first
  5000 code points of the stored and of the current text, whatever the digests are; it
  is empty when these two prefixes are equal.
\<close>

theorem status_and_diff_of_a_run:
  assumes "main cfg run_at fault (Page title raw) file = (Inr r, file')"
  shows "(r_status r = lit ''Change detected'' \<or> r_status r = lit ''No change detected'') \<and>
    (r_status r = lit ''Change detected'' \<longleftrightarrow>
       r_prev_hash r \<noteq> JStr [] \<and> JStr (r_cur_hash r) \<noteq> r_prev_hash r) \<and>
    py_get (load_state file) (lit ''last_hash'') (JStr []) = Inr (r_prev_hash r) \<and>
    sha256 (slice_to (normalize_text raw) (max_chars cfg)) = Inr (r_cur_hash r) \<and>
    (\<forall>prev_text. py_get (load_state file) (lit ''last_text'') (JStr []) = Inr prev_text \<longrightarrow>
       (\<not> truthy prev_text \<longrightarrow> r_diff_text r = no_previous \<and> r_diff_text r \<noteq> []) \<and>
       (truthy prev_text \<longrightarrow>
          (\<exists>p. prev_text = JStr p \<and>
             r_diff_text r = build_diff (slice_to p 5000)
               (slice_to (slice_to (normalize_text raw) (max_chars cfg)) 5000) 220 \<and>
             (slice_to p 5000 = slice_to (slice_to (normalize_text raw) (max_chars cfg)) 5000 \<longrightarrow>
                r_diff_text r = []))))"
  using assms
proof (rule main_success)
  fix kvs title' raw'
  let ?t = "slice_to (normalize_text raw) (max_chars cfg)"
  assume load: "load_state file = JObj kvs" and page: "Page title raw = Page title' raw'"
    and h: "sha256 (slice_to (normalize_text raw') (max_chars cfg)) = Inr (r_cur_hash r)"
    and prev: "r_prev_hash r = (case map_of kvs (lit ''last_hash'') of None \<Rightarrow> JStr [] | Some v \<Rightarrow> v)"
    and status: "r_status r =
        (if r_prev_hash r \<noteq> JStr [] \<and> JStr (r_cur_hash r) \<noteq> r_prev_hash r
         then lit ''Change detected'' else lit ''No change detected'')"
    and diff: "case map_of kvs (lit ''last_text'') of
           None \<Rightarrow> r_diff_text r = no_previous
         | Some v \<Rightarrow>
             if truthy v
             then \<exists>p. v = JStr p \<and> r_diff_text r =
               build_diff (slice_to p 5000)
                 (slice_to (slice_to (normalize_text raw') (max_chars cfg)) 5000) 220
             else r_diff_text r = no_previous"
  from page have raw: "raw' = raw" by simp
  have one: "one_line (slice_to ?t 5000)"
    by (simp add: one_line_slice_to one_line_normalize_text)
  have s: "(r_status r = lit ''Change detected'' \<or> r_status r = lit ''No change detected'') \<and>
    (r_status r = lit ''Change detected'' \<longleftrightarrow>
       r_prev_hash r \<noteq> JStr [] \<and> JStr (r_cur_hash r) \<noteq> r_prev_hash r)"
    using status status_texts_differ by auto
  have p: "py_get (load_state file) (lit ''last_hash'') (JStr []) = Inr (r_prev_hash r)"
    using load prev by simp
  have d: "(\<not> truthy prev_text \<longrightarrow> r_diff_text r = no_previous \<and> r_diff_text r \<noteq> []) \<and>
       (truthy prev_text \<longrightarrow>
          (\<exists>p. prev_text = JStr p \<and>
             r_diff_text r = build_diff (slice_to p 5000) (slice_to ?t 5000) 220 \<and>
             (slice_to p 5000 = slice_to ?t 5000 \<longrightarrow> r_diff_text r = [])))"
    if "py_get (load_state file) (lit ''last_text'') (JStr []) = Inr prev_text" for prev_text
  proof (cases "map_of kvs (lit ''last_text'')")
    case None
    with that load have "prev_text = JStr []" by simp
    with None diff show ?thesis
      by (simp add: no_previous_not_empty)
  next
    case (Some v)
    with that load have v: "prev_text = v" by simp
    show ?thesis
    proof (cases "truthy v")
      case True
      with Some diff raw obtain p where pv: "v = JStr p"
        and dt: "r_diff_text r = build_diff (slice_to p 5000) (slice_to ?t 5000) 220"
        by auto
      have "r_diff_text r = []" if "slice_to p 5000 = slice_to ?t 5000"
        using dt that build_diff_same [OF one] by simp
      with True v pv dt show ?thesis by simp
    next
      case False
      with Some diff v show ?thesis
        by (simp add: no_previous_not_empty)
    qed
  qed
  have D: "\<forall>prev_text. py_get (load_state file) (lit ''last_text'') (JStr []) = Inr prev_text \<longrightarrow>
       (\<not> truthy prev_text \<longrightarrow> r_diff_text r = no_previous \<and> r_diff_text r \<noteq> []) \<and>
       (truthy prev_text \<longrightarrow>
          (\<exists>p. prev_text = JStr p \<and>
             r_diff_text r = build_diff (slice_to p 5000) (slice_to ?t 5000) 220 \<and>
             (slice_to p 5000 = slice_to ?t 5000 \<longrightarrow> r_diff_text r = [])))"
    using d by blast
  from h raw have H: "sha256 ?t = Inr (r_cur_hash r)" by simp
  from s p H D show ?thesis by (intro conjI) blast+
qed

theorem status_and_diff_of_a_run_witness:
  "map_sum id r_status (fst (main \<lparr>target_url = lit ''u'', max_text_chars = None\<rparr> (lit ''t'') NoFault
      (Page [] (lit ''abc''))
      (Holds (JObj [(lit ''last_hash'', JStr (lit ''x'')), (lit ''last_text'', JStr (lit ''old''))])))) =
     Inr (lit ''Change detected'') \<and>
   (\<exists>r. fst (main \<lparr>target_url = lit ''u'', max_text_chars = None\<rparr> (lit ''t'') NoFault
      (Page [] (lit ''abc''))
      (Holds (JObj [(lit ''last_hash'', JStr (lit ''x'')), (lit ''last_text'', JStr (lit ''old''))]))) = Inr r \<and>
     (r_status r = lit ''Change detected'' \<longleftrightarrow>
       r_prev_hash r \<noteq> JStr [] \<and> JStr (r_cur_hash r) \<noteq> r_prev_hash r) \<and>
     r_prev_hash r = JStr (lit ''x''))"
  using status_and_diff_of_a_run [OF changed_run_abc]
  by (simp add: changed_run_abc)

text \<open>
  The claim as stated fails on a first run: no previous digest is stored, yet the
  status is the one of an unchanged page, and the diff text is not empty.
\<close>

theorem first_run_counterexample:
  "map_sum id r_status (fst (main \<lparr>target_url = lit ''u'', max_text_chars = None\<rparr> (lit ''t'') NoFault
      (Page [] (lit ''abc'')) Missing)) = Inr (lit ''No change detected'') \<and>
   map_sum id r_prev_hash (fst (main \<lparr>target_url = lit ''u'', max_text_chars = None\<rparr> (lit ''t'') NoFault
      (Page [] (lit ''abc'')) Missing)) = Inr (JStr []) \<and>
   map_sum id r_diff_text (fst (main \<lparr>target_url = lit ''u'', max_text_chars = None\<rparr> (lit ''t'') NoFault
      (Page [] (lit ''abc'')) Missing)) = Inr no_previous \<and>
   no_previous \<noteq> []"
  by (simp add: first_run_abc no_previous_not_empty)

text \<open>
  C2, as the code has it: when the diff has more than \<open>max_lines\<close> lines, the returned
  text is the first \<open>max_lines\<close> diff lines, unchanged, followed by the line
  \<open>... (diff truncated)\<close>, so it has \<open>max_lines + 1\<close> lines; the marker is no line of any
  unified diff. When the diff has at most \<open>max_lines\<close> lines, all of them are returned
  unchanged.
\<close>

theorem build_diff_truncation:
  assumes "0 \<le> max_lines"
    and "d = unified_diff (splitlines prev) (splitlines cur) (lit ''previous'') (lit ''current'')"
  shows "lit ''... (diff truncated)'' \<notin> set d \<and>
    (max_lines < int (length d) \<longrightarrow>
       build_diff prev cur max_lines =
         py_join (lit ''\<newline>'') (take (nat max_lines) d @ [lit ''... (diff truncated)'']) \<and>
       splitlines (build_diff prev cur max_lines) =
         take (nat max_lines) d @ [lit ''... (diff truncated)''] \<and>
       length (splitlines (build_diff prev cur max_lines)) = nat max_lines + 1) \<and>
    (int (length d) \<le> max_lines \<longrightarrow>
       build_diff prev cur max_lines = py_join (lit ''\<newline>'') d \<and>
       splitlines (build_diff prev cur max_lines) = d)"
proof -
  let ?m = "lit ''... (diff truncated)''"
  have bd: "build_diff prev cur max_lines = py_join [10] (diff_loop 0 d max_lines)"
    by (simp add: build_diff_def assms(2) lit_newline)
  have lines: "list_all (\<lambda>l. l \<noteq> [] \<and> one_line l) d"
    unfolding assms(2) list_all_iff using build_diff_lines_ok by blast
  have m: "?m \<noteq> [] \<and> one_line ?m"
    by (simp add: one_line_def lit_def is_linebreak_def)
  have notin: "?m \<notin> set d"
    unfolding assms(2) using diff_line_unified_diff marker_no_diff_line by blast
  have cut: "build_diff prev cur max_lines = py_join (lit ''\<newline>'') (take (nat max_lines) d @ [?m]) \<and>
       splitlines (build_diff prev cur max_lines) = take (nat max_lines) d @ [?m] \<and>
       length (splitlines (build_diff prev cur max_lines)) = nat max_lines + 1"
    if long: "max_lines < int (length d)"
  proof -
    from assms(1) long have loop: "diff_loop 0 d max_lines = take (nat max_lines) d @ [?m]"
      using diff_loop_cut [of 0 max_lines d] by simp
    have "list_all (\<lambda>l. l \<noteq> [] \<and> one_line l) (take (nat max_lines) d @ [?m])"
      using lines m by (auto simp: list_all_iff dest: in_set_takeD)
    then have sp: "splitlines (py_join [10] (take (nat max_lines) d @ [?m])) = take (nat max_lines) d @ [?m]"
      by (rule splitlines_join)
    from long assms(1) have "length (take (nat max_lines) d) = nat max_lines"
      by simp
    with bd loop sp show ?thesis
      by (simp add: lit_newline)
  qed
  have keep: "build_diff prev cur max_lines = py_join (lit ''\<newline>'') d \<and>
       splitlines (build_diff prev cur max_lines) = d"
    if "int (length d) \<le> max_lines"
  proof -
    from that have "diff_loop 0 d max_lines = d"
      using diff_loop_keep [of 0 d max_lines] by simp
    with bd splitlines_join [OF lines] show ?thesis
      by (simp add: lit_newline)
  qed
  from notin cut keep show ?thesis by blast
qed

theorem build_diff_truncation_witness:
  "(0::int) \<le> 2 \<and>
   lit ''... (diff truncated)'' \<notin>
     set (unified_diff (splitlines (lit ''a'')) (splitlines (lit ''b'')) (lit ''previous'') (lit ''current'')) \<and>
   build_diff (lit ''a'') (lit ''b'') 2 =
     py_join (lit ''\<newline>'')
       (take (nat 2) (unified_diff (splitlines (lit ''a'')) (splitlines (lit ''b''))
          (lit ''previous'') (lit ''current''))
        @ [lit ''... (diff truncated)'']) \<and>
   length (splitlines (build_diff (lit ''a'') (lit ''b'') 2)) = nat 2 + 1"
proof -
  have sp: "splitlines (lit ''a'') = [lit ''a'']" "splitlines (lit ''b'') = [lit ''b'']"
    by (simp_all add: splitlines_def lit_def is_linebreak_def)
  have len: "(2::int) < int (length (unified_diff (splitlines (lit ''a'')) (splitlines (lit ''b''))
      (lit ''previous'') (lit ''current'')))"
    by (simp add: sp unified_diff_a_b)
  have pos: "(0::int) \<le> 2" by simp
  from build_diff_truncation [OF pos refl, of "lit ''a''" "lit ''b''"] len pos
  show ?thesis by blast
qed

text \<open>
  The claim as stated fails for the texts \<open>a\<close> and \<open>b\<close> with a limit of two lines: the
  diff has five lines and the returned text has three, not two.
\<close>

theorem build_diff_line_count_counterexample:
  "build_diff (lit ''a'') (lit ''b'') 2 =
     lit ''--- previous'' @ lit ''\<newline>'' @ lit ''+++ current'' @ lit ''\<newline>'' @ lit ''... (diff truncated)'' \<and>
   length (splitlines (build_diff (lit ''a'') (lit ''b'') 2)) = 3 \<and>
   length (unified_diff (splitlines (lit ''a'')) (splitlines (lit ''b'')) (lit ''previous'') (lit ''current'')) = 5"
proof -
  have sp: "splitlines (lit ''a'') = [lit ''a'']" "splitlines (lit ''b'') = [lit ''b'']"
    by (simp_all add: splitlines_def lit_def is_linebreak_def)
  have "list_all (\<lambda>l. l \<noteq> [] \<and> one_line l)
      [lit ''--- previous'', lit ''+++ current'', lit ''... (diff truncated)'']"
    by (simp add: one_line_def lit_def is_linebreak_def)
  from splitlines_join [OF this]
  have "length (splitlines (build_diff (lit ''a'') (lit ''b'') 2)) = 3"
    by (simp add: build_diff_a_b_2)
  moreover have "build_diff (lit ''a'') (lit ''b'') 2 =
     lit ''--- previous'' @ lit ''\<newline>'' @ lit ''+++ current'' @ lit ''\<newline>'' @ lit ''... (diff truncated)''"
    by (simp add: build_diff_a_b_2 lit_newline)
  ultimately show ?thesis
    by (simp add: sp unified_diff_a_b)
qed













text \<open>
  C7: in every snapshot a run writes, the stored digest is the fingerprint of the exact
  text stored beside it.
\<close>

theorem stored_digest_is_fingerprint_of_stored_text:
  assumes "main cfg run_at fault page file = (Inr r, file')"
  shows "\<exists>kvs h t. file' = Holds (JObj kvs) \<and>
    map_of kvs (lit ''last_hash'') = Some (JStr h) \<and>
    map_of kvs (lit ''last_text'') = Some (JStr t) \<and> sha256 t = Inr h"
  using assms by (rule main_success) (simp add: lit_def)

theorem stored_digest_is_fingerprint_of_stored_text_witness:
  "\<exists>kvs h t.
    snd (main \<lparr>target_url = lit ''u'', max_text_chars = None\<rparr> (lit ''t'') NoFault
      (Page [] (lit ''abc'')) Missing) = Holds (JObj kvs) \<and>
    map_of kvs (lit ''last_hash'') = Some (JStr h) \<and>
    map_of kvs (lit ''last_text'') = Some (JStr t) \<and> sha256 t = Inr h"
  using stored_digest_is_fingerprint_of_stored_text [OF first_run_abc]
  by (simp add: first_run_abc)



text \<open>
  C9: a second run on the same page, with the state the first run wrote, reports no
  change.
\<close>

theorem second_run_reports_no_change:
  assumes "main cfg run_at fault page file = (Inr r, file')"
  shows "\<exists>r' file''. main cfg run_at' NoFault page file' = (Inr r', file'') \<and>
    r_status r' = lit ''No change detected'' \<and> r_prev_hash r' = JStr (r_cur_hash r')"
  using assms
proof (rule main_success)
  fix kvs title raw
  let ?t = "slice_to (normalize_text raw) (max_chars cfg)"
  let ?kvs = "[(lit ''target_url'', JStr (target_url cfg)),
              (lit ''last_checked_utc'', JStr run_at),
              (lit ''last_hash'', JStr (r_cur_hash r)),
              (lit ''last_title'', JStr title),
              (lit ''last_text'', JStr ?t)]"
  assume page: "page = Page title raw"
    and h: "sha256 ?t = Inr (r_cur_hash r)"
    and file': "file' = Holds (JObj ?kvs)"
  have load: "load_state file' = JObj ?kvs"
    by (simp add: file')
  have "case map_of ?kvs (lit ''last_text'') of None \<Rightarrow> True
        | Some v \<Rightarrow> truthy v \<longrightarrow> (\<exists>p. v = JStr p)"
    by (simp add: lit_def)
  from main_runs [OF load h this, of run_at' title]
  obtain r' file'' where run: "main cfg run_at' NoFault page file' = (Inr r', file'')"
    using page by auto
  from run have "r_status r' = lit ''No change detected'' \<and> r_prev_hash r' = JStr (r_cur_hash r')"
  proof (rule main_success)
    fix kvs' title' raw'
    assume "load_state file' = JObj kvs'" and "page = Page title' raw'"
      and h': "sha256 (slice_to (normalize_text raw') (max_chars cfg)) = Inr (r_cur_hash r')"
      and prev: "r_prev_hash r' = (case map_of kvs' (lit ''last_hash'') of None \<Rightarrow> JStr [] | Some v \<Rightarrow> v)"
      and status: "r_status r' =
        (if r_prev_hash r' \<noteq> JStr [] \<and> JStr (r_cur_hash r') \<noteq> r_prev_hash r'
         then lit ''Change detected'' else lit ''No change detected'')"
    with load page have kvs': "kvs' = ?kvs" and "raw' = raw" by simp_all
    with h h' have "r_cur_hash r' = r_cur_hash r" by simp
    moreover from prev kvs' have "r_prev_hash r' = JStr (r_cur_hash r)"
      by (simp add: lit_def)
    ultimately show ?thesis
      using status by simp
  qed
  with run show ?thesis by blast
qed

theorem second_run_reports_no_change_witness:
  "\<exists>r' file''.
     main \<lparr>target_url = lit ''u'', max_text_chars = None\<rparr> (lit ''t2'') NoFault (Page [] (lit ''abc''))
       (snd (main \<lparr>target_url = lit ''u'', max_text_chars = None\<rparr> (lit ''t'') NoFault
         (Page [] (lit ''abc'')) Missing)) = (Inr r', file'') \<and>
     r_status r' = lit ''No change detected'' \<and> r_prev_hash r' = JStr (r_cur_hash r')"
  using second_run_reports_no_change [OF first_run_abc, of "lit ''t2''"]
  by (simp add: first_run_abc)

text \<open>
  C10: normalization is idempotent: for every string \<open>s\<close>,
  \<open>normalize (normalize s) = normalize s\<close>.
\<close>

theorem normalize_text_idempotent: "normalize_text (normalize_text s) = normalize_text s"
  by (simp add: normalize_text_join [of "normalize_text s"] py_split_normalize
      normalize_text_join [symmetric])

end
